theory Spec2Isabelle
  imports Main
begin

section \<open>Python 2 byte strings\<close>

text \<open>
  The package is Python 2 code (\<^verbatim>\<open>itertools.imap\<close>, \<^verbatim>\<open>file\<close>): a \<^verbatim>\<open>str\<close> is a
  byte string, and in the default C locale only the ASCII letters are cased. The
  character classes \<^verbatim>\<open>[a-z]\<close> and \<^verbatim>\<open>[A-Z]\<close> of the two patterns are the same
  two byte ranges.
\<close>

definition ascii_lowercase :: string where
  "ascii_lowercase = ''abcdefghijklmnopqrstuvwxyz''"

definition ascii_uppercase :: string where
  "ascii_uppercase = ''ABCDEFGHIJKLMNOPQRSTUVWXYZ''"

definition char_islower :: "char \<Rightarrow> bool" where
  "char_islower c = (c \<in> set ascii_lowercase)"

definition char_isupper :: "char \<Rightarrow> bool" where
  "char_isupper c = (c \<in> set ascii_uppercase)"

definition char_tolower :: "char \<Rightarrow> char" where
  "char_tolower c =
     (case map_of (zip ascii_uppercase ascii_lowercase) c of Some l \<Rightarrow> l | None \<Rightarrow> c)"

definition char_toupper :: "char \<Rightarrow> char" where
  "char_toupper c =
     (case map_of (zip ascii_lowercase ascii_uppercase) c of Some u \<Rightarrow> u | None \<Rightarrow> c)"

text \<open>\<^verbatim>\<open>str.isspace\<close> of one byte: space, tab, newline, vertical tab, form feed, return.\<close>

definition char_isspace :: "char \<Rightarrow> bool" where
  "char_isspace c = (c \<in> set [CHR '' '', CHR 0x09, CHR 0x0A, CHR 0x0B, CHR 0x0C, CHR 0x0D])"

text \<open>\<^verbatim>\<open>str.lower()\<close> and \<^verbatim>\<open>str.upper()\<close>.\<close>

definition lower :: "string \<Rightarrow> string" where
  "lower s = map char_tolower s"

definition upper :: "string \<Rightarrow> string" where
  "upper s = map char_toupper s"

text \<open>
  \<^verbatim>\<open>str.islower()\<close>: no cased character is uppercase and there is at least one cased
  character. \<^verbatim>\<open>str.isupper()\<close> is the mirror image.
\<close>

definition islower :: "string \<Rightarrow> bool" where
  "islower s = (list_ex char_islower s \<and> \<not> list_ex char_isupper s)"

definition isupper :: "string \<Rightarrow> bool" where
  "isupper s = (list_ex char_isupper s \<and> \<not> list_ex char_islower s)"

text \<open>
  \<^verbatim>\<open>str.istitle()\<close>: an uppercase letter may only follow an uncased character, a
  lowercase letter only a cased one, and there is at least one cased character. The
  first flag is \<^verbatim>\<open>previous_is_cased\<close>, the second \<^verbatim>\<open>cased\<close>.
\<close>

fun istitle_loop :: "bool \<Rightarrow> bool \<Rightarrow> string \<Rightarrow> bool" where
  "istitle_loop previous_is_cased cased [] = cased"
| "istitle_loop previous_is_cased cased (c # cs) =
     (if char_isupper c then
        (if previous_is_cased then False else istitle_loop True True cs)
      else if char_islower c then
        (if previous_is_cased then istitle_loop True True cs else False)
      else istitle_loop False cased cs)"

definition istitle :: "string \<Rightarrow> bool" where
  "istitle s = istitle_loop False False s"

text \<open>
  \<^verbatim>\<open>str.title()\<close>: the first letter of every run of letters is uppercased, the other
  letters of the run are lowercased, and uncased characters are copied.
\<close>

fun title_loop :: "bool \<Rightarrow> string \<Rightarrow> string" where
  "title_loop previous_is_cased [] = []"
| "title_loop previous_is_cased (c # cs) =
     (if char_islower c then
        (if previous_is_cased then c else char_toupper c) # title_loop True cs
      else if char_isupper c then
        (if previous_is_cased then char_tolower c else c) # title_loop True cs
      else c # title_loop False cs)"

definition title :: "string \<Rightarrow> string" where
  "title s = title_loop False s"

text \<open>\<^verbatim>\<open>str.strip()\<close> and \<^verbatim>\<open>str.split()\<close> with no argument (runs of whitespace separate).\<close>

definition strip :: "string \<Rightarrow> string" where
  "strip s = rev (dropWhile char_isspace (rev (dropWhile char_isspace s)))"

fun split_loop :: "string \<Rightarrow> string \<Rightarrow> string list" where
  "split_loop acc [] = (if acc = [] then [] else [rev acc])"
| "split_loop acc (c # cs) =
     (if char_isspace c then (if acc = [] then [] else [rev acc]) @ split_loop [] cs
      else split_loop (c # acc) cs)"

definition split :: "string \<Rightarrow> string list" where
  "split s = split_loop [] s"

section \<open>The two patterns\<close>

text \<open>
  \<^verbatim>\<open>SPLIT_UNDERSCORE = r'[^_]+'\<close>. \<^verbatim>\<open>re.sub\<close> rewrites every maximal run of
  characters other than the underscore and copies the rest; \<open>spans_underscore\<close> cuts
  the subject into these pieces, left to right, a rewritten run marked \<open>True\<close> and
  every underscore a piece of its own marked \<open>False\<close>.
\<close>

definition not_underscore :: "char \<Rightarrow> bool" where
  "not_underscore c = (c \<noteq> CHR ''_'')"

function spans_underscore :: "string \<Rightarrow> (bool \<times> string) list" where
  "spans_underscore [] = []"
| "spans_underscore (c # cs) =
     (if not_underscore c then
        (True, c # takeWhile not_underscore cs) # spans_underscore (dropWhile not_underscore cs)
      else (False, [c]) # spans_underscore cs)"
  by pat_completeness auto
termination
  by (relation "measure length") (auto simp: less_Suc_eq_le length_dropWhile_le)

text \<open>
  \<^verbatim>\<open>SPLIT_CASE = r'(^[a-z]+|[A-Z]+(?![a-z])|[A-Z][a-z]+)'\<close>, matched at the head of
  \<open>s\<close>; \<open>at_start\<close> says whether the head of \<open>s\<close> is the start of the subject, the
  only place where \<^verbatim>\<open>^\<close> matches. The result is the length of the match.
\<close>

definition lower_run :: "string \<Rightarrow> nat" where
  "lower_run s = length (takeWhile char_islower s)"

definition upper_run :: "string \<Rightarrow> nat" where
  "upper_run s = length (takeWhile char_isupper s)"

text \<open>The negative lookahead \<^verbatim>\<open>(?![a-z])\<close> after the first \<open>k\<close> characters of \<open>s\<close>.\<close>

definition not_before_lower :: "string \<Rightarrow> nat \<Rightarrow> bool" where
  "not_before_lower s k = (case drop k s of [] \<Rightarrow> True | c # _ \<Rightarrow> \<not> char_islower c)"

text \<open>
  \<^verbatim>\<open>[A-Z]+(?![a-z])\<close>: the greedy run of \<open>k\<close> uppercase letters gives one letter back
  at a time until the lookahead holds, and fails when no letter is left.
\<close>

fun upper_backtrack :: "string \<Rightarrow> nat \<Rightarrow> nat option" where
  "upper_backtrack s 0 = None"
| "upper_backtrack s (Suc k) =
     (if not_before_lower s (Suc k) then Some (Suc k) else upper_backtrack s k)"

definition match_split_case :: "bool \<Rightarrow> string \<Rightarrow> nat option" where
  "match_split_case at_start s =
     (if at_start \<and> 0 < lower_run s then Some (lower_run s)
      else case upper_backtrack s (upper_run s) of
        Some k \<Rightarrow> Some k
      | None \<Rightarrow>
          (case s of
            [] \<Rightarrow> None
          | c # cs \<Rightarrow>
              if char_isupper c \<and> 0 < lower_run cs then Some (Suc (lower_run cs))
              else None))"

text \<open>
  \<^verbatim>\<open>re.finditer(SPLIT_CASE, word)\<close>: the leftmost match, then the search goes on
  behind it; where nothing matches the search moves one character on.
\<close>

function finditer_split_case :: "bool \<Rightarrow> string \<Rightarrow> string list" where
  "finditer_split_case at_start s =
     (if s = [] then []
      else case match_split_case at_start s of
        Some k \<Rightarrow> take k s # finditer_split_case False (drop k s)
      | None \<Rightarrow> finditer_split_case False (tl s))"
  by pat_completeness auto
termination
proof (relation "measure (\<lambda>(at_start, s). length s)", goal_cases)
  case 1
  show ?case by simp
next
  case (2 at_start s)
  then show ?case by (cases s) simp_all
next
  case (3 at_start s k)
  have "0 < j" if "upper_backtrack s n = Some j" for n j
    using that by (induction n) (auto split: if_splits)
  with 3 have "0 < k"
    by (auto simp: match_split_case_def split: if_splits option.splits list.splits)
  with 3 show ?case by simp
qed

declare finditer_split_case.simps [simp del]

section \<open>The module\<close>

datatype error = ValueError | IndexError

text \<open>
  A \<^verbatim>\<open>Nominator\<close> object. The random number generator of the \<^verbatim>\<open>random\<close> module is
  global state, beside the object: it is the sequence of the numbers it will draw, the
  next one at index 0.
\<close>

record nominator =
  cache :: "string \<rightharpoonup> string"
  replacements :: "string list"
  no_replace :: "string set"

type_synonym rng = "nat \<Rightarrow> nat"

type_synonym world = "nominator \<times> rng"

definition advance :: "rng \<Rightarrow> rng" where
  "advance r = (\<lambda>i. r (Suc i))"

text \<open>
  \<^verbatim>\<open>random.choice(seq)\<close> is \<^verbatim>\<open>seq[int(self.random() * len(seq))]\<close>: it draws a
  number, then indexes, which raises \<^verbatim>\<open>IndexError\<close> on the empty sequence. On a
  sequence that is not empty the index can be any position of it: here the number drawn
  modulo the length.
\<close>

definition random_choice :: "'a list \<Rightarrow> rng \<Rightarrow> (error + 'a) \<times> rng" where
  "random_choice seq r =
     (if seq = [] then (Inl IndexError, advance r)
      else (Inr (seq ! (r 0 mod length seq)), advance r))"

text \<open>\<^verbatim>\<open>read_words(source)\<close>, the generator read to its end.\<close>

definition read_words :: "string list \<Rightarrow> string list" where
  "read_words source =
     concat (map (\<lambda>line. map lower (filter (\<lambda>word. word \<noteq> []) (map strip (split line)))) source)"

text \<open>\<^verbatim>\<open>split_replace_by_case(word)\<close>, the generator read to its end.\<close>

definition split_replace_by_case :: "string \<Rightarrow> string list" where
  "split_replace_by_case word = finditer_split_case True word"

text \<open>\<^verbatim>\<open>Nominator.__init__(replacements, no_replace)\<close>.\<close>

definition Nominator :: "string list \<Rightarrow> string list \<Rightarrow> nominator" where
  "Nominator repl no_repl =
     \<lparr>cache = Map.empty, replacements = read_words repl, no_replace = set (read_words no_repl)\<rparr>"

text \<open>
  \<^verbatim>\<open>Nominator._replace(word)\<close>. The right-hand side of the double assignment is
  evaluated first, so \<^verbatim>\<open>random.choice\<close> raises before the cache is written.
\<close>

fun replace_word :: "string \<Rightarrow> world \<Rightarrow> (error + string) \<times> world" where
  "replace_word word (self, rng) =
     (if word \<in> no_replace self then (Inr word, self, rng)
      else case cache self word of
        Some cached \<Rightarrow> (Inr cached, self, rng)
      | None \<Rightarrow>
          (case random_choice (replacements self) rng of
            (Inl e, rng') \<Rightarrow> (Inl e, self, rng')
          | (Inr replacement, rng') \<Rightarrow>
              (Inr replacement, self\<lparr>cache := (cache self)(word \<mapsto> replacement)\<rparr>, rng')))"

text \<open>\<^verbatim>\<open>Nominator.replace_single(word)\<close>.\<close>

definition replace_single :: "string \<Rightarrow> world \<Rightarrow> (error + string) \<times> world" where
  "replace_single word w =
     (if islower word then replace_word word w
      else if isupper word then
        (case replace_word (lower word) w of
          (Inl e, w') \<Rightarrow> (Inl e, w')
        | (Inr r, w') \<Rightarrow> (Inr (upper r), w'))
      else if istitle word then
        (case replace_word (lower word) w of
          (Inl e, w') \<Rightarrow> (Inl e, w')
        | (Inr r, w') \<Rightarrow> (Inr (title r), w'))
      else (Inl ValueError, w))"

text \<open>
  \<^verbatim>\<open>''.join(itertools.imap(f, words))\<close>: the words are replaced in order, the first
  exception ends the call, and the object keeps what the earlier words did to it.
\<close>

fun join_imap :: "(string \<Rightarrow> world \<Rightarrow> (error + string) \<times> world) \<Rightarrow> string list \<Rightarrow> world
    \<Rightarrow> (error + string) \<times> world" where
  "join_imap f [] w = (Inr [], w)"
| "join_imap f (x # xs) w =
     (case f x w of
       (Inl e, w') \<Rightarrow> (Inl e, w')
     | (Inr r, w') \<Rightarrow>
         (case join_imap f xs w' of
           (Inl e, w'') \<Rightarrow> (Inl e, w'')
         | (Inr rs, w'') \<Rightarrow> (Inr (r @ rs), w'')))"

text \<open>\<^verbatim>\<open>Nominator._process_cased_words(match)\<close>, on the matched text.\<close>

definition process_cased_words :: "string \<Rightarrow> world \<Rightarrow> (error + string) \<times> world" where
  "process_cased_words cased_word w = join_imap replace_single (split_replace_by_case cased_word) w"

text \<open>
  \<^verbatim>\<open>re.sub(pattern, repl, string)\<close> over the pieces of the subject: a matched piece is
  replaced by what \<open>repl\<close> returns for it, every other piece is copied.
\<close>

fun re_sub :: "(string \<Rightarrow> world \<Rightarrow> (error + string) \<times> world) \<Rightarrow> (bool \<times> string) list \<Rightarrow> world
    \<Rightarrow> (error + string) \<times> world" where
  "re_sub repl [] w = (Inr [], w)"
| "re_sub repl ((matched, piece) # rest) w =
     (if matched then
        (case repl piece w of
          (Inl e, w') \<Rightarrow> (Inl e, w')
        | (Inr r, w') \<Rightarrow>
            (case re_sub repl rest w' of
              (Inl e, w'') \<Rightarrow> (Inl e, w'')
            | (Inr rs, w'') \<Rightarrow> (Inr (r @ rs), w'')))
      else
        (case re_sub repl rest w of
          (Inl e, w') \<Rightarrow> (Inl e, w')
        | (Inr rs, w') \<Rightarrow> (Inr (piece @ rs), w')))"

text \<open>\<^verbatim>\<open>Nominator.replace_combined(word)\<close>.\<close>

definition replace_combined :: "string \<Rightarrow> world \<Rightarrow> (error + string) \<times> world" where
  "replace_combined word w = re_sub process_cased_words (spans_underscore word) w"

text \<open>
  The words \<^verbatim>\<open>replace_combined\<close> passes to \<^verbatim>\<open>replace_single\<close>, in order: the casing
  words of every chunk between underscores.
\<close>

definition casing_words :: "string \<Rightarrow> string list" where
  "casing_words word =
     concat (map (\<lambda>(matched, piece). if matched then split_replace_by_case piece else [])
       (spans_underscore word))"

section \<open>Clients\<close>

text \<open>
  A client calls the methods of one object one after the other; a call that raises
  leaves the object as the exception found it, and the client goes on.
\<close>

datatype call = Replace string | Replace_single string | Replace_combined string

fun perform :: "call \<Rightarrow> world \<Rightarrow> (error + string) \<times> world" where
  "perform (Replace word) w = replace_word word w"
| "perform (Replace_single word) w = replace_single word w"
| "perform (Replace_combined word) w = replace_combined word w"

fun run :: "call list \<Rightarrow> world \<Rightarrow> world" where
  "run [] w = w"
| "run (c # cs) w = run cs (snd (perform c w))"

section \<open>Growth of the cache\<close>

text \<open>
  \<open>grows w w'\<close>: the object of \<open>w'\<close> has every cache entry of the object of \<open>w\<close>, and
  the same candidate list and exemption set.
\<close>

definition grows :: "world \<Rightarrow> world \<Rightarrow> bool" where
  "grows w w' =
     (cache (fst w) \<subseteq>\<^sub>m cache (fst w') \<and> replacements (fst w') = replacements (fst w)
      \<and> no_replace (fst w') = no_replace (fst w))"

section \<open>The fixtures of the test suite\<close>

text \<open>\<^verbatim>\<open>empty\<close>: \<^verbatim>\<open>nominat.Nominator([])\<close>.\<close>

definition empty_fixture :: nominator where
  "empty_fixture = Nominator [] []"

text \<open>\<^verbatim>\<open>chicken\<close>: \<^verbatim>\<open>nominat.Nominator(['chicken'], no_replace=['id'])\<close>.\<close>

definition chicken :: nominator where
  "chicken = Nominator [''chicken''] [''id'']"

text \<open>
  \<^verbatim>\<open>spam\<close>: \<^verbatim>\<open>nominat.Nominator(['spam'])\<close> after
  \<^verbatim>\<open>cache.update(foo='egg', bar='bacon', baz='sausage')\<close>.
\<close>

definition spam :: nominator where
  "spam = (Nominator [''spam''] [])
     \<lparr>cache := [''foo'' \<mapsto> ''egg'', ''bar'' \<mapsto> ''bacon'', ''baz'' \<mapsto> ''sausage'']\<rparr>"

text \<open>
  The \<^verbatim>\<open>empty\<close> fixture as \<^verbatim>\<open>test_replace_numerals\<close> seeds it:
  \<^verbatim>\<open>empty.cache.update({'version': 'plane', '3': 'fan'})\<close>.
\<close>

definition seeded_empty :: nominator where
  "seeded_empty = empty_fixture\<lparr>cache := [''version'' \<mapsto> ''plane'', ''3'' \<mapsto> ''fan'']\<rparr>"

section \<open>Evaluation\<close>

text \<open>The equations that compute the model on a concrete input.\<close>

lemmas char_eval =
  ascii_lowercase_def ascii_uppercase_def char_islower_def char_isupper_def
  char_tolower_def char_toupper_def char_isspace_def not_underscore_def

lemmas str_eval =
  lower_def upper_def islower_def isupper_def istitle_def title_def strip_def split_def

lemmas pattern_eval =
  lower_run_def upper_run_def not_before_lower_def match_split_case_def
  finditer_split_case.simps split_replace_by_case_def

lemmas nominator_eval =
  Nominator_def read_words_def random_choice_def replace_single_def
  process_cased_words_def replace_combined_def
  empty_fixture_def chicken_def spam_def seeded_empty_def

section \<open>Facts about characters and strings\<close>

lemma char_tolower_id: "\<not> char_isupper c \<Longrightarrow> char_tolower c = c"
  by (simp add: char_eval)

lemma char_toupper_id: "\<not> char_islower c \<Longrightarrow> char_toupper c = c"
  by (simp add: char_eval)

lemma lowercase_table:
  "list_all (\<lambda>c. \<not> char_isupper c \<and> char_isupper (char_toupper c)
      \<and> char_tolower (char_toupper c) = c) ascii_lowercase"
  by code_simp

lemma uppercase_table:
  "list_all (\<lambda>c. \<not> char_islower c \<and> char_islower (char_tolower c)
      \<and> char_toupper (char_tolower c) = c) ascii_uppercase"
  by code_simp

lemma char_islower_facts:
  "char_islower c \<Longrightarrow>
     \<not> char_isupper c \<and> char_isupper (char_toupper c) \<and> char_tolower (char_toupper c) = c"
  using lowercase_table unfolding list_all_iff char_islower_def by blast

lemma char_isupper_facts:
  "char_isupper c \<Longrightarrow>
     \<not> char_islower c \<and> char_islower (char_tolower c) \<and> char_toupper (char_tolower c) = c"
  using uppercase_table unfolding list_all_iff char_isupper_def by blast

lemma islower_lower: "islower x \<Longrightarrow> lower x = x"
  by (simp add: islower_def lower_def list_ex_iff map_idI char_tolower_id)

lemma isupper_upper_lower: "isupper x \<Longrightarrow> upper (lower x) = x"
proof -
  assume "isupper x"
  then have no: "\<forall>c\<in>set x. \<not> char_islower c"
    by (simp add: isupper_def list_ex_iff)
  have "char_toupper (char_tolower c) = c" if "c \<in> set x" for c
  proof (cases "char_isupper c")
    case True
    then show ?thesis by (simp add: char_isupper_facts)
  next
    case False
    with no that show ?thesis by (simp add: char_tolower_id char_toupper_id)
  qed
  then show ?thesis
    by (simp add: upper_def lower_def map_idI)
qed

lemma istitle_loop_title_lower:
  "istitle_loop p c x \<Longrightarrow> title_loop p (map char_tolower x) = x"
proof (induction x arbitrary: p c)
  case Nil
  then show ?case by simp
next
  case (Cons a x)
  show ?case
  proof (cases "char_isupper a")
    case True
    with Cons.prems have "\<not> p" and rest: "istitle_loop True True x"
      by (auto split: if_splits)
    with True Cons.IH [OF rest] show ?thesis
      by (simp add: char_isupper_facts)
  next
    case up: False
    show ?thesis
    proof (cases "char_islower a")
      case True
      with up Cons.prems have "p" and rest: "istitle_loop True True x"
        by (auto split: if_splits)
      with True up Cons.IH [OF rest] show ?thesis
        by (simp add: char_tolower_id)
    next
      case False
      with up Cons.prems have rest: "istitle_loop False c x"
        by simp
      with False up Cons.IH [OF rest] show ?thesis
        by (simp add: char_tolower_id)
    qed
  qed
qed

lemma istitle_title_lower: "istitle x \<Longrightarrow> title (lower x) = x"
  by (simp add: istitle_def title_def lower_def istitle_loop_title_lower)

lemma upper_backtrack_pos: "upper_backtrack s n = Some k \<Longrightarrow> 0 < k"
  by (induction n) (auto split: if_splits)

lemma match_split_case_pos: "match_split_case at_start s = Some k \<Longrightarrow> 0 < k"
  by (auto simp: match_split_case_def split: if_splits option.splits list.splits
      dest: upper_backtrack_pos)

section \<open>Facts about \<^verbatim>\<open>_replace\<close> and \<^verbatim>\<open>replace_single\<close>\<close>

lemma replace_word_exempt:
  "word \<in> no_replace self \<Longrightarrow> replace_word word (self, g) = (Inr word, self, g)"
  by simp

lemma replace_word_cached:
  "word \<notin> no_replace self \<Longrightarrow> cache self word = Some cached
     \<Longrightarrow> replace_word word (self, g) = (Inr cached, self, g)"
  by simp

lemma replace_word_fresh:
  "word \<notin> no_replace self \<Longrightarrow> cache self word = None \<Longrightarrow> replacements self \<noteq> []
     \<Longrightarrow> replace_word word (self, g) =
        (Inr (replacements self ! (g 0 mod length (replacements self))),
         self\<lparr>cache := (cache self)(word \<mapsto> replacements self ! (g 0 mod length (replacements self)))\<rparr>,
         advance g)"
  by (simp add: random_choice_def)

lemma replace_word_empty_pool:
  "word \<notin> no_replace self \<Longrightarrow> cache self word = None \<Longrightarrow> replacements self = []
     \<Longrightarrow> replace_word word (self, g) = (Inl IndexError, self, advance g)"
  by (simp add: random_choice_def)

lemma replace_word_cases:
  obtains (exempt) "word \<in> no_replace self"
  | (cached) r where "word \<notin> no_replace self" "cache self word = Some r"
  | (fresh) "word \<notin> no_replace self" "cache self word = None" "replacements self \<noteq> []"
  | (empty_pool) "word \<notin> no_replace self" "cache self word = None" "replacements self = []"
  by (cases "cache self word") auto

lemma replace_word_IndexError_iff:
  "(fst (replace_word word (self, g)) = Inl IndexError) =
     (word \<notin> no_replace self \<and> cache self word = None \<and> replacements self = [])"
  by (cases word self rule: replace_word_cases)
    (simp_all add: replace_word_exempt replace_word_cached replace_word_fresh replace_word_empty_pool del: replace_word.simps)

lemma replace_word_error:
  "fst (replace_word word w) = Inl e \<Longrightarrow> e = IndexError"
  by (cases w) (auto simp: random_choice_def split: option.splits if_splits)

lemma islower_upper: "islower w \<Longrightarrow> isupper (upper w) \<and> lower (upper w) = w"
proof -
  assume low: "islower w"
  then obtain a where a: "a \<in> set w" "char_islower a"
    by (auto simp: islower_def list_ex_iff)
  from low have no: "\<forall>c\<in>set w. \<not> char_isupper c"
    by (simp add: islower_def list_ex_iff)
  have step: "\<not> char_islower (char_toupper c) \<and> char_tolower (char_toupper c) = c"
    if "c \<in> set w" for c
  proof (cases "char_islower c")
    case True
    then show ?thesis using char_islower_facts [OF True] char_isupper_facts [of "char_toupper c"]
      by simp
  next
    case False
    with no that show ?thesis by (simp add: char_toupper_id char_tolower_id)
  qed
  from a have "char_isupper (char_toupper a)" by (simp add: char_islower_facts)
  with a(1) have "list_ex char_isupper (upper w)"
    by (auto simp: upper_def list_ex_iff)
  moreover from step have "\<not> list_ex char_islower (upper w)"
    by (auto simp: upper_def list_ex_iff)
  moreover from step have "lower (upper w) = w"
    by (simp add: upper_def lower_def map_idI)
  ultimately show ?thesis by (simp add: isupper_def)
qed

lemma istitle_loop_title_loop:
  "istitle_loop p c (title_loop p w) = (c \<or> list_ex (\<lambda>a. char_islower a \<or> char_isupper a) w)"
proof (induction w arbitrary: p c)
  case Nil
  then show ?case by simp
next
  case (Cons a w)
  show ?case
  proof (cases "char_islower a")
    case True
    then show ?thesis using char_islower_facts [OF True] Cons.IH [of True True]
      by simp
  next
    case low: False
    show ?thesis
    proof (cases "char_isupper a")
      case True
      then show ?thesis
        using char_isupper_facts [OF True] char_islower_facts [of "char_tolower a"]
          Cons.IH [of True True]
        by simp
    next
      case False
      with low show ?thesis using Cons.IH [of False c] by simp
    qed
  qed
qed

lemma lower_title_loop:
  "\<not> list_ex char_isupper w \<Longrightarrow> map char_tolower (title_loop p w) = w"
proof (induction w arbitrary: p)
  case Nil
  then show ?case by simp
next
  case (Cons a w)
  then have up: "\<not> char_isupper a" and rest: "\<not> list_ex char_isupper w"
    by simp_all
  show ?case
  proof (cases "char_islower a")
    case True
    then show ?thesis using char_islower_facts [OF True] Cons.IH [OF rest] up
      by (simp add: char_tolower_id)
  next
    case False
    with up show ?thesis using Cons.IH [OF rest] by (simp add: char_tolower_id)
  qed
qed

lemma islower_title: "islower w \<Longrightarrow> istitle (title w) \<and> lower (title w) = w"
  by (auto simp: islower_def istitle_def title_def lower_def istitle_loop_title_loop
      lower_title_loop list_ex_iff)

lemma replace_single_islower:
  "islower x \<Longrightarrow> replace_single x w = replace_word x w"
  by (simp add: replace_single_def)

lemma islower_not_isupper: "islower x \<Longrightarrow> \<not> isupper x"
  by (auto simp: islower_def isupper_def)

lemma replace_single_exempt:
  "lower x \<in> no_replace self \<Longrightarrow> islower x \<or> isupper x \<or> istitle x
     \<Longrightarrow> replace_single x (self, g) = (Inr x, self, g)"
  by (auto simp: replace_single_def islower_lower isupper_upper_lower istitle_title_lower)

lemma replace_single_IndexError_iff:
  "(fst (replace_single x (self, g)) = Inl IndexError) =
     ((islower x \<or> isupper x \<or> istitle x)
      \<and> lower x \<notin> no_replace self \<and> cache self (lower x) = None \<and> replacements self = [])"
proof (cases "islower x")
  case True
  then show ?thesis using replace_word_IndexError_iff [of x self g]
    by (simp add: replace_single_islower islower_lower)
next
  case False
  then show ?thesis using replace_word_IndexError_iff [of "lower x" self g]
    by (cases "replace_word (lower x) (self, g)")
      (auto simp: replace_single_def simp del: replace_word.simps split: sum.splits)
qed

section \<open>The cache only grows\<close>

lemma grows_refl: "grows w w"
  by (simp add: grows_def)

lemma grows_trans: "grows w w' \<Longrightarrow> grows w' w'' \<Longrightarrow> grows w w''"
  by (auto simp: grows_def intro: map_le_trans)

lemma replace_word_grows: "grows w (snd (replace_word x w))"
  by (cases w)
    (auto simp: grows_def random_choice_def map_le_def split: option.splits)

lemma replace_single_grows: "grows w (snd (replace_single x w))"
  using replace_word_grows [of w x] replace_word_grows [of w "lower x"]
  by (auto simp: replace_single_def grows_refl split: prod.splits sum.splits)

lemma join_imap_grows:
  assumes "\<And>x w. grows w (snd (f x w))"
  shows "grows w (snd (join_imap f xs w))"
proof (induction xs arbitrary: w)
  case Nil
  show ?case by (simp add: grows_refl)
next
  case (Cons x xs)
  show ?case
  proof -
    obtain res w' where fx: "f x w = (res, w')" by (cases "f x w")
    with assms [of w x] have step: "grows w w'" by simp
    show ?thesis
    proof (cases res)
      case (Inl e)
      with fx step show ?thesis by simp
    next
      case (Inr r)
      with fx step Cons.IH [of w'] show ?thesis
        by (auto split: prod.splits sum.splits intro: grows_trans)
    qed
  qed
qed

lemma process_cased_words_grows: "grows w (snd (process_cased_words x w))"
  unfolding process_cased_words_def by (rule join_imap_grows) (rule replace_single_grows)

lemma re_sub_grows:
  assumes "\<And>x w. grows w (snd (f x w))"
  shows "grows w (snd (re_sub f ps w))"
proof (induction ps arbitrary: w)
  case Nil
  show ?case by (simp add: grows_refl)
next
  case (Cons p ps)
  obtain m piece where p: "p = (m, piece)" by (cases p)
  show ?case
  proof (cases m)
    case False
    with p Cons.IH [of w] show ?thesis
      by (auto split: prod.splits sum.splits)
  next
    case True
    show ?thesis
    proof -
      obtain res w' where fx: "f piece w = (res, w')" by (cases "f piece w")
      with assms [of w piece] have step: "grows w w'" by simp
      show ?thesis
      proof (cases res)
        case (Inl e)
        with fx step p True show ?thesis by simp
      next
        case (Inr r)
        with fx step p True Cons.IH [of w'] show ?thesis
          by (auto split: prod.splits sum.splits intro: grows_trans)
      qed
    qed
  qed
qed

lemma replace_combined_grows: "grows w (snd (replace_combined x w))"
  unfolding replace_combined_def by (rule re_sub_grows) (rule process_cased_words_grows)

section \<open>Facts about the case splitter\<close>

lemma upper_backtrack_le: "upper_backtrack s n = Some k \<Longrightarrow> k \<le> n"
  by (induction n) (auto split: if_splits)

lemma islower_takeWhile:
  "0 < lower_run s \<Longrightarrow> islower (take (lower_run s) s)"
proof -
  assume pos: "0 < lower_run s"
  let ?t = "takeWhile char_islower s"
  have eq: "take (lower_run s) s = ?t"
    by (simp add: lower_run_def takeWhile_eq_take [symmetric])
  have all: "\<forall>c\<in>set ?t. char_islower c"
    by (auto dest: set_takeWhileD)
  from pos have "?t \<noteq> []" by (simp add: lower_run_def)
  then obtain a where "a \<in> set ?t" by (cases ?t) auto
  with all have "list_ex char_islower ?t" by (auto simp: list_ex_iff)
  moreover have "\<not> char_isupper c" if "c \<in> set ?t" for c
    using all that char_islower_facts [of c] by blast
  then have "\<not> list_ex char_isupper ?t"
    unfolding list_ex_iff by blast
  ultimately show ?thesis by (simp add: eq islower_def)
qed

lemma isupper_take_upper_run:
  assumes "0 < k" "k \<le> upper_run s"
  shows "isupper (take k s)"
proof -
  let ?t = "takeWhile char_isupper s"
  have "take (upper_run s) s = ?t"
    by (simp add: upper_run_def takeWhile_eq_take [symmetric])
  then have "take k ?t = take k (take (upper_run s) s)"
    by simp
  with assms(2) have eq: "take k s = take k ?t"
    by (simp add: min_def)
  have all: "\<forall>c\<in>set (take k ?t). char_isupper c"
    by (auto dest: in_set_takeD set_takeWhileD)
  from assms have "take k ?t \<noteq> []" by (auto simp: upper_run_def)
  then obtain a where "a \<in> set (take k ?t)" by (cases "take k ?t") auto
  with all have "list_ex char_isupper (take k ?t)" by (auto simp: list_ex_iff)
  moreover have "\<not> char_islower c" if "c \<in> set (take k ?t)" for c
    using all that char_isupper_facts [of c] by blast
  then have "\<not> list_ex char_islower (take k ?t)"
    unfolding list_ex_iff by blast
  ultimately show ?thesis by (simp add: eq isupper_def)
qed

lemma istitle_loop_lowers:
  "\<forall>c\<in>set ls. char_islower c \<Longrightarrow> istitle_loop True True ls"
proof (induction ls)
  case Nil
  show ?case by simp
next
  case (Cons a ls)
  then have "char_islower a" by simp
  with char_islower_facts [of a] have "\<not> char_isupper a" by simp
  with Cons show ?case by simp
qed

lemma istitle_capitalised:
  assumes "char_isupper c"
  shows "istitle (take (Suc (lower_run cs)) (c # cs))"
proof -
  have "take (lower_run cs) cs = takeWhile char_islower cs"
    by (simp add: lower_run_def takeWhile_eq_take [symmetric])
  moreover have "istitle_loop True True (takeWhile char_islower cs)"
    by (rule istitle_loop_lowers) (auto dest: set_takeWhileD)
  ultimately show ?thesis using assms by (simp add: istitle_def)
qed

lemma match_split_case_cased:
  assumes "match_split_case at_start s = Some k"
  shows "islower (take k s) \<or> isupper (take k s) \<or> istitle (take k s)"
proof (cases "at_start \<and> 0 < lower_run s")
  case True
  with assms show ?thesis by (auto simp: match_split_case_def islower_takeWhile)
next
  case first: False
  show ?thesis
  proof (cases "upper_backtrack s (upper_run s)")
    case (Some j)
    with first assms have "j = k"
      by (auto simp: match_split_case_def split: if_splits)
    with Some have "0 < k" "k \<le> upper_run s"
      by (auto dest: upper_backtrack_pos upper_backtrack_le)
    then show ?thesis by (simp add: isupper_take_upper_run)
  next
    case None
    with first assms obtain c cs where "s = c # cs" "char_isupper c" "k = Suc (lower_run cs)"
      by (auto simp: match_split_case_def split: list.splits if_splits)
    then show ?thesis using istitle_capitalised [of c cs] by simp
  qed
qed

lemma finditer_split_case_cased:
  "x \<in> set (finditer_split_case at_start s) \<Longrightarrow> islower x \<or> isupper x \<or> istitle x"
proof (induction at_start s rule: finditer_split_case.induct)
  case (1 at_start s)
  show ?case
  proof (cases "s = []")
    case True
    with "1.prems" show ?thesis by (simp add: finditer_split_case.simps)
  next
    case False
    show ?thesis
    proof (cases "match_split_case at_start s")
      case None
      with False "1.prems" have "x \<in> set (finditer_split_case False (tl s))"
        by (simp add: finditer_split_case.simps [of at_start s])
      with False None "1.IH" show ?thesis by blast
    next
      case (Some k)
      with False "1.prems" have "x = take k s \<or> x \<in> set (finditer_split_case False (drop k s))"
        by (simp add: finditer_split_case.simps [of at_start s])
      then show ?thesis
      proof
        assume "x = take k s"
        with Some show ?thesis by (simp add: match_split_case_cased)
      next
        assume "x \<in> set (finditer_split_case False (drop k s))"
        with False Some "1.IH" show ?thesis by blast
      qed
    qed
  qed
qed

lemma split_replace_by_case_cased:
  "x \<in> set (split_replace_by_case chunk) \<Longrightarrow> islower x \<or> isupper x \<or> istitle x"
  unfolding split_replace_by_case_def by (rule finditer_split_case_cased)

section \<open>Success and failure\<close>

lemma replace_word_ok:
  "replacements (fst w) \<noteq> [] \<Longrightarrow> \<exists>r. fst (replace_word x w) = Inr r"
  by (cases w) (auto simp: random_choice_def split: option.splits)

lemma replace_single_ok:
  assumes "replacements (fst w) \<noteq> []" "islower x \<or> isupper x \<or> istitle x"
  shows "\<exists>r. fst (replace_single x w) = Inr r"
proof -
  from assms(1) obtain r where r: "fst (replace_word x w) = Inr r"
    using replace_word_ok by blast
  from assms(1) obtain r' where r': "fst (replace_word (lower x) w) = Inr r'"
    using replace_word_ok by blast
  from assms(2) r r' show ?thesis
    by (cases "replace_word (lower x) w") (auto simp: replace_single_def)
qed

lemma replace_single_error:
  assumes "fst (replace_single x w) = Inl e" "islower x \<or> isupper x \<or> istitle x"
  shows "e = IndexError"
proof -
  have err: "replace_word y w = (Inl e, w') \<Longrightarrow> e = IndexError" for y w'
    using replace_word_error [of y w e] by simp
  obtain res w' where lw: "replace_word (lower x) w = (res, w')"
    by (cases "replace_word (lower x) w")
  show ?thesis
  proof (cases "islower x")
    case True
    with assms(1) show ?thesis
      by (simp add: replace_single_islower replace_word_error)
  next
    case False
    with assms lw have "res = Inl e"
      by (auto simp: replace_single_def split: if_splits sum.splits)
    with lw show ?thesis by (blast dest: err)
  qed
qed

lemma join_imap_ok:
  assumes "\<forall>x\<in>set xs. islower x \<or> isupper x \<or> istitle x" "replacements (fst w) \<noteq> []"
  shows "\<exists>r. fst (join_imap replace_single xs w) = Inr r"
  using assms
proof (induction xs arbitrary: w)
  case Nil
  show ?case by simp
next
  case (Cons x xs)
  obtain res w' where step: "replace_single x w = (res, w')" by (cases "replace_single x w")
  with Cons.prems replace_single_ok [of w x] obtain r where r: "res = Inr r" by auto
  from step replace_single_grows [of w x] Cons.prems(2) have "replacements (fst w') \<noteq> []"
    by (simp add: grows_def)
  with Cons.prems(1) Cons.IH [of w'] obtain rs where "fst (join_imap replace_single xs w') = Inr rs"
    by auto
  with step r show ?case by (auto split: prod.splits sum.splits)
qed

lemma join_imap_error:
  assumes "\<forall>x\<in>set xs. islower x \<or> isupper x \<or> istitle x"
    "fst (join_imap replace_single xs w) = Inl e"
  shows "e = IndexError"
  using assms
proof (induction xs arbitrary: w)
  case Nil
  then show ?case by simp
next
  case (Cons x xs)
  obtain res w' where step: "replace_single x w = (res, w')" by (cases "replace_single x w")
  show ?case
  proof (cases res)
    case (Inl e')
    with step Cons.prems(2) have "fst (replace_single x w) = Inl e" by simp
    with Cons.prems(1) show ?thesis using replace_single_error [of x w e] by simp
  next
    case (Inr r)
    with step Cons.prems(2) have "fst (join_imap replace_single xs w') = Inl e"
      by (auto split: prod.splits sum.splits)
    with Cons.prems(1) Cons.IH [of w'] show ?thesis by simp
  qed
qed

lemma process_cased_words_ok:
  "replacements (fst w) \<noteq> [] \<Longrightarrow> \<exists>r. fst (process_cased_words chunk w) = Inr r"
  unfolding process_cased_words_def
  by (rule join_imap_ok) (auto dest: split_replace_by_case_cased)

lemma process_cased_words_error:
  "fst (process_cased_words chunk w) = Inl e \<Longrightarrow> e = IndexError"
  unfolding process_cased_words_def
  by (rule join_imap_error [rotated]) (auto dest: split_replace_by_case_cased)

lemma re_sub_ok:
  assumes "replacements (fst w) \<noteq> []"
  shows "\<exists>r. fst (re_sub process_cased_words ps w) = Inr r"
  using assms
proof (induction ps arbitrary: w)
  case Nil
  show ?case by simp
next
  case (Cons p ps)
  obtain m piece where p: "p = (m, piece)" by (cases p)
  show ?case
  proof (cases m)
    case False
    from Cons.IH [OF Cons.prems] obtain rs where "fst (re_sub process_cased_words ps w) = Inr rs"
      by blast
    with p False show ?thesis by (auto split: prod.splits sum.splits)
  next
    case True
    obtain res w' where step: "process_cased_words piece w = (res, w')"
      by (cases "process_cased_words piece w")
    with Cons.prems process_cased_words_ok [of w piece] obtain r where r: "res = Inr r" by auto
    from step process_cased_words_grows [of w piece] Cons.prems
    have "replacements (fst w') \<noteq> []" by (simp add: grows_def)
    from Cons.IH [OF this] obtain rs where "fst (re_sub process_cased_words ps w') = Inr rs"
      by blast
    with p True step r show ?thesis by (auto split: prod.splits sum.splits)
  qed
qed

lemma re_sub_error:
  "fst (re_sub process_cased_words ps w) = Inl e \<Longrightarrow> e = IndexError"
proof (induction ps arbitrary: w)
  case Nil
  then show ?case by simp
next
  case (Cons p ps)
  obtain m piece where p: "p = (m, piece)" by (cases p)
  show ?case
  proof (cases m)
    case False
    with p Cons.prems have "fst (re_sub process_cased_words ps w) = Inl e"
      by (auto split: prod.splits sum.splits)
    then show ?thesis by (rule Cons.IH)
  next
    case True
    obtain res w' where step: "process_cased_words piece w = (res, w')"
      by (cases "process_cased_words piece w")
    show ?thesis
    proof (cases res)
      case (Inl e')
      with step p True Cons.prems have "fst (process_cased_words piece w) = Inl e" by simp
      then show ?thesis by (rule process_cased_words_error)
    next
      case (Inr r)
      with step p True Cons.prems have "fst (re_sub process_cased_words ps w') = Inl e"
        by (auto split: prod.splits sum.splits)
      then show ?thesis by (rule Cons.IH)
    qed
  qed
qed

section \<open>Facts about the underscore pattern\<close>

lemma takeWhile_before_underscore:
  "takeWhile not_underscore (a @ CHR ''_'' # b) = takeWhile not_underscore a"
  by (induction a) (auto simp: not_underscore_def)

lemma dropWhile_before_underscore:
  "dropWhile not_underscore (a @ CHR ''_'' # b) = dropWhile not_underscore a @ CHR ''_'' # b"
  by (induction a) (auto simp: not_underscore_def)

lemma spans_underscore_append:
  "spans_underscore (a @ CHR ''_'' # b) =
     spans_underscore a @ (False, ''_'') # spans_underscore b"
proof (induction a rule: spans_underscore.induct)
  case 1
  show ?case by (simp add: not_underscore_def)
next
  case (2 c cs)
  then show ?case
    by (simp add: takeWhile_before_underscore dropWhile_before_underscore)
qed

lemma spans_underscore_run:
  "spans_underscore (replicate n CHR ''_'' @ b) = replicate n (False, ''_'') @ spans_underscore b"
  by (induction n) (simp_all add: not_underscore_def)

lemma re_sub_append:
  "re_sub f (ps @ qs) w =
     (case re_sub f ps w of
       (Inl e, w') \<Rightarrow> (Inl e, w')
     | (Inr r, w') \<Rightarrow>
         (case re_sub f qs w' of
           (Inl e, w'') \<Rightarrow> (Inl e, w'')
         | (Inr rs, w'') \<Rightarrow> (Inr (r @ rs), w'')))"
proof (induction ps arbitrary: w)
  case Nil
  show ?case by (simp split: prod.splits sum.splits)
next
  case (Cons p ps)
  obtain m piece where p: "p = (m, piece)" by (cases p)
  show ?case
  proof (cases m)
    case False
    with p Cons.IH [of w] show ?thesis
      by (simp split: prod.splits sum.splits)
  next
    case True
    obtain res w1 where step: "f piece w = (res, w1)" by (cases "f piece w")
    with p True Cons.IH [of w1] show ?thesis
      by (cases res) (simp_all split: prod.splits sum.splits)
  qed
qed

lemma re_sub_copied:
  "re_sub f (replicate n (False, u) @ qs) w =
     (case re_sub f qs w of
       (Inl e, w') \<Rightarrow> (Inl e, w')
     | (Inr rs, w') \<Rightarrow> (Inr (concat (replicate n u) @ rs), w'))"
  by (induction n) (simp_all split: prod.splits sum.splits)

lemma concat_replicate_underscore: "concat (replicate n ''_'') = replicate n CHR ''_''"
  by (induction n) simp_all

section \<open>Facts about clients\<close>

lemma perform_grows: "grows w (snd (perform c w))"
  by (cases c) (simp_all add: replace_word_grows replace_single_grows replace_combined_grows)

lemma run_grows: "grows w (run cs w)"
proof (induction cs arbitrary: w)
  case Nil
  show ?case by (simp add: grows_refl)
next
  case (Cons c cs)
  from perform_grows [of w c] Cons.IH [of "snd (perform c w)"] show ?case
    by (auto intro: grows_trans)
qed

lemma grows_cached:
  "grows (self, g) (self', g') \<Longrightarrow> cache self word = Some r \<Longrightarrow> cache self' word = Some r"
  by (auto simp: grows_def map_le_def dom_def)

lemma replace_word_caches:
  assumes "word \<notin> no_replace self" "fst (replace_word word (self, g)) = Inr r"
  shows "cache (fst (snd (replace_word word (self, g)))) word = Some r
    \<and> (cache self word = None \<longrightarrow> r \<in> set (replacements self))"
proof (cases word self rule: replace_word_cases)
  case exempt
  with assms show ?thesis by simp
next
  case (cached r')
  with assms show ?thesis by (simp add: replace_word_cached del: replace_word.simps)
next
  case fresh
  with assms show ?thesis by (auto simp: replace_word_fresh simp del: replace_word.simps)
next
  case empty_pool
  with assms show ?thesis by (simp add: replace_word_empty_pool del: replace_word.simps)
qed

lemma replace_single_cached:
  assumes "cache self (lower x) = Some r" "lower x \<notin> no_replace self"
  shows "replace_single x (self, g) =
     (if islower x then Inr r else if isupper x then Inr (upper r)
      else if istitle x then Inr (title r) else Inl ValueError, self, g)"
  using assms by (auto simp: replace_single_def islower_lower)

lemma spans_underscore_chunk:
  "x \<noteq> [] \<Longrightarrow> list_all not_underscore x \<Longrightarrow> spans_underscore x = [(True, x)]"
proof (cases x)
  case Nil
  assume "x \<noteq> []"
  with Nil show ?thesis by simp
next
  case (Cons a list)
  assume "list_all not_underscore x"
  with Cons have a: "not_underscore a" and rest: "\<forall>c\<in>set list. not_underscore c"
    by (simp_all add: list_all_iff)
  from rest have tw: "takeWhile not_underscore list = list"
    and dw: "dropWhile not_underscore list = []"
    by simp_all
  show ?thesis unfolding Cons by (simp add: a tw dw)
qed

lemma replace_combined_single_word:
  assumes "list_all not_underscore x" "split_replace_by_case x = [x]"
  shows "replace_combined x w = replace_single x w"
proof -
  have "x \<noteq> []"
  proof
    assume "x = []"
    with assms(2) show False
      by (simp add: split_replace_by_case_def finditer_split_case.simps)
  qed
  with assms(1) have "spans_underscore x = [(True, x)]" by (simp add: spans_underscore_chunk)
  with assms(2) show ?thesis
    by (simp add: replace_combined_def process_cased_words_def split: prod.splits sum.splits)
qed

section \<open>Strings without letters, and the empty candidate list\<close>

lemma istitle_loop_uncased:
  "\<not> list_ex char_islower s \<Longrightarrow> \<not> list_ex char_isupper s \<Longrightarrow> istitle_loop p c s = c"
  by (induction s arbitrary: p) simp_all

lemma replace_single_uncased:
  "\<not> list_ex char_islower s \<Longrightarrow> \<not> list_ex char_isupper s
     \<Longrightarrow> replace_single s w = (Inl ValueError, w)"
  by (simp add: replace_single_def islower_def isupper_def istitle_def istitle_loop_uncased)

lemma replace_single_empty_pool:
  assumes "replacements self = []" "islower x \<or> isupper x \<or> istitle x"
  shows "if lower x \<notin> no_replace self \<and> cache self (lower x) = None
     then replace_single x (self, g) = (Inl IndexError, self, advance g)
     else \<exists>r. replace_single x (self, g) = (Inr r, self, g)"
proof (cases "lower x" self rule: replace_word_cases)
  case exempt
  with assms(2) show ?thesis by (auto simp: replace_single_def islower_lower)
next
  case (cached r)
  with assms(2) show ?thesis by (auto simp: replace_single_def islower_lower)
next
  case fresh
  with assms(1) show ?thesis by simp
next
  case empty_pool
  then have "replace_word (lower x) (self, g) = (Inl IndexError, self, advance g)"
    by (rule replace_word_empty_pool)
  with empty_pool(1,2) assms(2) show ?thesis
    by (auto simp: replace_single_def islower_lower simp del: replace_word.simps)
qed

lemma join_imap_empty_pool:
  assumes "replacements self = []" "\<forall>x\<in>set xs. islower x \<or> isupper x \<or> istitle x"
  shows "if list_ex (\<lambda>x. lower x \<notin> no_replace self \<and> cache self (lower x) = None) xs
     then fst (join_imap replace_single xs (self, g)) = Inl IndexError
     else \<exists>r. join_imap replace_single xs (self, g) = (Inr r, self, g)"
  using assms(2)
proof (induction xs)
  case Nil
  show ?case by simp
next
  case (Cons x xs)
  then have x: "islower x \<or> isupper x \<or> istitle x"
    and xs: "\<forall>x\<in>set xs. islower x \<or> isupper x \<or> istitle x"
    by simp_all
  note head = replace_single_empty_pool [OF assms(1) x, of g]
  note rest = Cons.IH [OF xs]
  show ?case
  proof (cases "lower x \<notin> no_replace self \<and> cache self (lower x) = None")
    case True
    with head have "replace_single x (self, g) = (Inl IndexError, self, advance g)" by simp
    with True show ?thesis by simp
  next
    case False
    with head obtain r where r: "replace_single x (self, g) = (Inr r, self, g)" by auto
    show ?thesis
    proof (cases "list_ex (\<lambda>x. lower x \<notin> no_replace self \<and> cache self (lower x) = None) xs")
      case True
      with rest have "fst (join_imap replace_single xs (self, g)) = Inl IndexError" by simp
      with r True show ?thesis by (auto split: prod.splits sum.splits)
    next
      case none: False
      with rest obtain rs where "join_imap replace_single xs (self, g) = (Inr rs, self, g)"
        by auto
      with r none False show ?thesis by simp
    qed
  qed
qed

lemma re_sub_empty_pool:
  assumes "replacements self = []"
  shows "if list_ex (\<lambda>x. lower x \<notin> no_replace self \<and> cache self (lower x) = None)
        (concat (map (\<lambda>(matched, piece). if matched then split_replace_by_case piece else []) ps))
     then fst (re_sub process_cased_words ps (self, g)) = Inl IndexError
     else \<exists>r. re_sub process_cased_words ps (self, g) = (Inr r, self, g)"
    (is "if ?bad ps then _ else _")
proof (induction ps)
  case Nil
  show ?case by simp
next
  case (Cons p ps)
  obtain m piece where p: "p = (m, piece)" by (cases p)
  let ?unknown = "\<lambda>x. lower x \<notin> no_replace self \<and> cache self (lower x) = None"
  show ?case
  proof (cases m)
    case False
    with p have same: "?bad (p # ps) = ?bad ps" by simp
    show ?thesis
    proof (cases "?bad ps")
      case True
      with Cons.IH have "fst (re_sub process_cased_words ps (self, g)) = Inl IndexError"
        by simp
      with same True p \<open>\<not> m\<close> show ?thesis
        by (cases "re_sub process_cased_words ps (self, g)") auto
    next
      case none: False
      with Cons.IH obtain rs where "re_sub process_cased_words ps (self, g) = (Inr rs, self, g)"
        by auto
      with same none p \<open>\<not> m\<close> show ?thesis
        by auto
    qed
  next
    case True
    have cased: "\<forall>x\<in>set (split_replace_by_case piece). islower x \<or> isupper x \<or> istitle x"
      by (auto dest: split_replace_by_case_cased)
    note head = join_imap_empty_pool [OF assms cased, of g]
    show ?thesis
    proof (cases "list_ex ?unknown (split_replace_by_case piece)")
      case bad: True
      with head have "fst (process_cased_words piece (self, g)) = Inl IndexError"
        by (simp add: process_cased_words_def)
      with p True bad show ?thesis
        by (cases "process_cased_words piece (self, g)") auto
    next
      case good: False
      with head obtain r where r: "process_cased_words piece (self, g) = (Inr r, self, g)"
        by (auto simp: process_cased_words_def)
      from p True good have same: "?bad (p # ps) = ?bad ps" by simp
      show ?thesis
      proof (cases "?bad ps")
        case True
        with Cons.IH have "fst (re_sub process_cased_words ps (self, g)) = Inl IndexError"
          by simp
        with same True p \<open>m\<close> r show ?thesis
          by (cases "re_sub process_cased_words ps (self, g)") auto
      next
        case False
        with Cons.IH obtain rs where "re_sub process_cased_words ps (self, g) = (Inr rs, self, g)"
          by auto
        with same False p \<open>m\<close> r show ?thesis
          by auto
      qed
    qed
  qed
qed

lemma replace_combined_IndexError_iff:
  "(fst (replace_combined text (self, g)) = Inl IndexError) =
     (replacements self = []
      \<and> list_ex (\<lambda>x. lower x \<notin> no_replace self \<and> cache self (lower x) = None)
          (casing_words text))"
proof (cases "replacements self = []")
  case True
  from re_sub_empty_pool [OF True, of "spans_underscore text" g] True show ?thesis
    by (auto simp: replace_combined_def casing_words_def split: if_splits)
next
  case False
  then obtain r where "fst (replace_combined text (self, g)) = Inr r"
    using re_sub_ok [of "(self, g)" "spans_underscore text"]
    by (auto simp: replace_combined_def)
  with False show ?thesis by simp
qed

lemma upper_run_prefix:
  assumes "list_all char_isupper us" "char_islower l"
  shows "upper_run (us @ l # rest) = length us"
proof -
  from assms(2) have "\<not> char_isupper l" by (simp add: char_islower_facts)
  with assms(1) have "takeWhile char_isupper (us @ l # rest) = us"
    by (simp add: list_all_iff takeWhile_append2)
  then show ?thesis by (simp add: upper_run_def)
qed

lemma acronym_gives_back_one:
  assumes "list_all char_isupper us" "2 \<le> length us" "char_islower l"
  shows "match_split_case at_start (us @ l # rest) = Some (length us - 1)"
proof -
  from assms(2) obtain m where m: "length us = Suc (Suc m)"
    by (cases "length us"; cases "length us - 1") auto
  let ?s = "us @ l # rest"
  from assms(2) obtain u us' where us: "us = u # us'" by (cases us) auto
  with assms(1) have "char_isupper u" by simp
  then have "\<not> char_islower u" by (simp add: char_isupper_facts)
  with us have first: "lower_run ?s = 0" by (simp add: lower_run_def)
  have run: "upper_run ?s = Suc (Suc m)"
    using upper_run_prefix [OF assms(1,3)] m by simp
  from assms(3) have full: "\<not> not_before_lower ?s (Suc (Suc m))"
    using m by (simp add: not_before_lower_def)
  have split_last: "us = butlast us @ [last us]"
    using us by simp
  have len: "length (butlast us) = Suc m"
    using m by simp
  have "?s = butlast us @ (last us # l # rest)"
    using split_last by (metis append.assoc append_Cons append_Nil)
  then have "drop (Suc m) ?s = drop (length (butlast us)) (butlast us @ (last us # l # rest))"
    by (simp only: len)
  then have dropped: "drop (Suc m) ?s = last us # l # rest"
    by simp
  from assms(1) us have "char_isupper (last us)"
    by (metis last_in_set list.simps(3) list_all_iff)
  then have "\<not> char_islower (last us)" by (simp add: char_isupper_facts)
  with dropped have shorter: "not_before_lower ?s (Suc m)"
    by (simp add: not_before_lower_def)
  from full shorter have "upper_backtrack ?s (Suc (Suc m)) = Some (Suc m)" by simp
  with first run m show ?thesis by (simp add: match_split_case_def)
qed

section \<open>The claims\<close>

subsection \<open>Characters between the words\<close>

text \<open>
  C1. \<^verbatim>\<open>replace_combined\<close> is to keep, in place, every character of a chunk that is
  not part of a casing word, and \<^verbatim>\<open>test_word_boundaries\<close> expects the \<^verbatim>\<open>chicken\<close>
  fixture to turn \<^verbatim>\<open>This (super) neat:thing\<close> into
  \<^verbatim>\<open>Chicken (chicken) chicken:chicken\<close>. The code does otherwise: the whole text is one
  chunk without underscore, \<^verbatim>\<open>SPLIT_CASE\<close> finds the one word \<^verbatim>\<open>This\<close> in it (a
  lowercase word is matched at the start of the chunk only), and
  \<^verbatim>\<open>_process_cased_words\<close> joins the replaced words alone, so the chunk becomes
  \<^verbatim>\<open>Chicken\<close> and every other character is lost.
\<close>

theorem non_word_characters_dropped:
  "split_replace_by_case ''This (super) neat:thing'' = [''This'']
   \<and> fst (replace_combined ''This (super) neat:thing'' (chicken, g)) = Inr ''Chicken''"
  by (simp add: char_eval str_eval pattern_eval nominator_eval)

subsection \<open>Digits\<close>

text \<open>
  C2. A string of digits is to count as lowercase in \<^verbatim>\<open>replace_single\<close>, and
  \<^verbatim>\<open>test_replace_numerals\<close> expects \<^verbatim>\<open>VERSION_3\<close> to become \<^verbatim>\<open>PLANE_fan\<close> with
  the cache \<^verbatim>\<open>{'version': 'plane', '3': 'fan'}\<close>. The code does otherwise:
  \<^verbatim>\<open>'3'.islower()\<close> is false, as are \<^verbatim>\<open>isupper\<close> and \<^verbatim>\<open>istitle\<close>, so
  \<^verbatim>\<open>replace_single('3')\<close> raises \<^verbatim>\<open>ValueError\<close>; and \<^verbatim>\<open>SPLIT_CASE\<close> matches no
  digit, so \<^verbatim>\<open>replace_combined\<close> finds no word in the chunk \<^verbatim>\<open>3\<close> and returns
  \<^verbatim>\<open>PLANE_\<close>.
\<close>

theorem digits_are_not_lowercase:
  "fst (replace_single ''3'' (seeded_empty, g)) = Inl ValueError
   \<and> fst (replace_combined ''VERSION_3'' (seeded_empty, g)) = Inr ''PLANE_''"
  by (simp add: char_eval str_eval pattern_eval nominator_eval)

subsection \<open>One choice for every word\<close>

text \<open>
  C3. Let \<open>word\<close> be outside the exemption set and let a call of \<^verbatim>\<open>_replace\<close> return
  \<open>r\<close> for it (the first encounter, which draws \<open>r\<close> from the candidates, or a later
  one). Then after any further calls of the three methods, failed ones included, the
  cache still maps \<open>word\<close> to \<open>r\<close>; \<^verbatim>\<open>_replace\<close> returns \<open>r\<close> and changes nothing;
  \<^verbatim>\<open>replace_single\<close> returns \<open>r\<close>, \<open>upper r\<close> or \<open>title r\<close> for every spelling of
  \<open>word\<close> in one of the three casings; and \<^verbatim>\<open>replace_combined\<close> on a text that is one
  casing word is \<^verbatim>\<open>replace_single\<close> on it.
\<close>

theorem cached_choice_is_permanent:
  assumes "word \<notin> no_replace self"
    and "fst (replace_word word (self, g)) = Inr r"
    and "run calls (snd (replace_word word (self, g))) = (self', g')"
  shows "cache self' word = Some r
    \<and> (cache self word = None \<longrightarrow> r \<in> set (replacements self))
    \<and> replace_word word (self', g') = (Inr r, self', g')
    \<and> (\<forall>x. lower x = word \<longrightarrow>
          replace_single x (self', g') =
            (if islower x then Inr r else if isupper x then Inr (upper r)
             else if istitle x then Inr (title r) else Inl ValueError, self', g'))
    \<and> (\<forall>x. lower x = word \<and> list_all not_underscore x \<and> split_replace_by_case x = [x] \<longrightarrow>
          replace_combined x (self', g') = replace_single x (self', g'))"
proof -
  obtain self1 g1 where after: "snd (replace_word word (self, g)) = (self1, g1)"
    by (cases "snd (replace_word word (self, g))")
  from assms(1,2) after have first: "cache self1 word = Some r"
    and chosen: "cache self word = None \<longrightarrow> r \<in> set (replacements self)"
    using replace_word_caches [of word self g r] by simp_all
  from replace_word_grows [of "(self, g)" word] after assms(1)
  have ex1: "word \<notin> no_replace self1" by (simp add: grows_def)
  from run_grows [of "(self1, g1)" calls] assms(3) after
  have later: "grows (self1, g1) (self', g')" by simp
  with first have kept: "cache self' word = Some r" by (simp add: grows_cached)
  from later ex1 have ex: "word \<notin> no_replace self'" by (simp add: grows_def)
  from kept ex have "replace_word word (self', g') = (Inr r, self', g')" by simp
  moreover from kept ex have "\<forall>x. lower x = word \<longrightarrow>
          replace_single x (self', g') =
            (if islower x then Inr r else if isupper x then Inr (upper r)
             else if istitle x then Inr (title r) else Inl ValueError, self', g')"
    using replace_single_cached [of self'] by blast
  moreover have "\<forall>x. lower x = word \<and> list_all not_underscore x \<and> split_replace_by_case x = [x] \<longrightarrow>
          replace_combined x (self', g') = replace_single x (self', g')"
    using replace_combined_single_word by blast
  ultimately show ?thesis using kept chosen by blast
qed

theorem cached_choice_is_permanent_witness:
  "cache (fst (run [Replace_combined ''foo_QUUX'', Replace_single ''Bar'']
       (snd (replace_word ''quux'' (spam, \<lambda>_. 0))))) ''quux'' = Some ''spam''
   \<and> fst (replace_single ''QUUX'' (run [Replace_combined ''foo_QUUX'', Replace_single ''Bar'']
       (snd (replace_word ''quux'' (spam, \<lambda>_. 0))))) = Inr ''SPAM''
   \<and> fst (replace_combined ''QUUX'' (run [Replace_combined ''foo_QUUX'', Replace_single ''Bar'']
       (snd (replace_word ''quux'' (spam, \<lambda>_. 0))))) = Inr ''SPAM''"
proof -
  let ?w = "run [Replace_combined ''foo_QUUX'', Replace_single ''Bar'']
       (snd (replace_word ''quux'' (spam, \<lambda>_. 0)))"
  have h1: "''quux'' \<notin> no_replace spam"
    by (simp add: spam_def Nominator_def read_words_def)
  have h2: "fst (replace_word ''quux'' (spam, \<lambda>_. 0)) = Inr ''spam''"
    by (simp add: char_eval str_eval nominator_eval)
  have h3: "?w = (fst ?w, snd ?w)"
    by (simp only: prod.collapse)
  note all = cached_choice_is_permanent [OF h1 h2 h3]
  have spelling: "lower ''QUUX'' = ''quux''" "\<not> islower ''QUUX''" "isupper ''QUUX''"
    "upper ''spam'' = ''SPAM''"
    by (simp_all add: char_eval str_eval)
  have one_word: "list_all not_underscore ''QUUX''" "split_replace_by_case ''QUUX'' = [''QUUX'']"
    by (simp_all add: char_eval pattern_eval)
  from all have kept: "cache (fst ?w) ''quux'' = Some ''spam''"
    by (rule conjunct1)
  from all have "\<forall>x. lower x = ''quux'' \<longrightarrow>
          replace_single x (fst ?w, snd ?w) =
            (if islower x then Inr ''spam'' else if isupper x then Inr (upper ''spam'')
             else if istitle x then Inr (title ''spam'') else Inl ValueError, fst ?w, snd ?w)"
    by (elim conjE)
  with spelling have "replace_single ''QUUX'' (fst ?w, snd ?w) = (Inr ''SPAM'', fst ?w, snd ?w)"
    by (simp only: if_True if_False simp_thms)
  then have single: "fst (replace_single ''QUUX'' ?w) = Inr ''SPAM''"
    by (simp only: prod.collapse fst_conv)
  from all have "\<forall>x. lower x = ''quux'' \<and> list_all not_underscore x
          \<and> split_replace_by_case x = [x] \<longrightarrow>
          replace_combined x (fst ?w, snd ?w) = replace_single x (fst ?w, snd ?w)"
    by (elim conjE)
  with spelling(1) one_word
  have "replace_combined ''QUUX'' (fst ?w, snd ?w) = replace_single ''QUUX'' (fst ?w, snd ?w)"
    by (simp only: simp_thms)
  with single have "fst (replace_combined ''QUUX'' ?w) = Inr ''SPAM''"
    by (simp only: prod.collapse)
  with kept single show ?thesis by (intro conjI)
qed

subsection \<open>No failure on a casing word\<close>

text \<open>
  C4. Every word the case splitter yields is lowercase, uppercase or title case, so
  \<^verbatim>\<open>replace_combined\<close> never raises the \<^verbatim>\<open>ValueError\<close> of \<^verbatim>\<open>replace_single\<close>, and
  with a candidate list that is not empty it returns a string for every text.
\<close>

theorem replace_combined_never_fails:
  "(\<forall>x\<in>set (split_replace_by_case chunk). islower x \<or> isupper x \<or> istitle x)
   \<and> fst (replace_combined phrase (self, g)) \<noteq> Inl ValueError
   \<and> (replacements self \<noteq> [] \<longrightarrow> (\<exists>r. fst (replace_combined phrase (self, g)) = Inr r))"
proof (intro conjI impI ballI)
  fix x assume "x \<in> set (split_replace_by_case chunk)"
  then show "islower x \<or> isupper x \<or> istitle x" by (rule split_replace_by_case_cased)
next
  show "fst (replace_combined phrase (self, g)) \<noteq> Inl ValueError"
    using re_sub_error [of "spans_underscore phrase" "(self, g)" ValueError]
    by (auto simp: replace_combined_def)
next
  assume "replacements self \<noteq> []"
  then show "\<exists>r. fst (replace_combined phrase (self, g)) = Inr r"
    using re_sub_ok [of "(self, g)" "spans_underscore phrase"]
    by (simp add: replace_combined_def)
qed

theorem replace_combined_never_fails_witness:
  "replacements chicken \<noteq> []
   \<and> (\<exists>r. fst (replace_combined ''some_PascalCase (and) more'' (chicken, \<lambda>_. 0)) = Inr r)"
proof -
  have pool: "replacements chicken \<noteq> []"
    by (simp add: char_eval str_eval nominator_eval)
  with replace_combined_never_fails [of "''''" "''some_PascalCase (and) more''" chicken "\<lambda>_. 0"]
  show ?thesis by blast
qed

subsection \<open>The empty candidate list\<close>

text \<open>
  C5. \<^verbatim>\<open>_replace\<close> raises the \<^verbatim>\<open>IndexError\<close> of \<^verbatim>\<open>random.choice\<close> exactly when the
  word is not exempt, has no cache entry and the candidate list is empty. So does
  \<^verbatim>\<open>replace_single\<close>, for a word in one of the three casings and its lowercase form,
  and \<^verbatim>\<open>replace_combined\<close>, when the list is empty and one of the casing words of the
  text is neither exempt nor cached. A word with a cache entry never raises it, and
  one that is not exempt is returned from the cache with nothing changed, also when
  the list is empty.
\<close>

theorem empty_pool_error_iff:
  "((fst (replace_word word (self, g)) = Inl IndexError) =
      (word \<notin> no_replace self \<and> cache self word = None \<and> replacements self = []))
   \<and> ((fst (replace_single x (self, g)) = Inl IndexError) =
      ((islower x \<or> isupper x \<or> istitle x)
       \<and> lower x \<notin> no_replace self \<and> cache self (lower x) = None \<and> replacements self = []))
   \<and> ((fst (replace_combined phrase (self, g)) = Inl IndexError) =
      (replacements self = []
       \<and> list_ex (\<lambda>x. lower x \<notin> no_replace self \<and> cache self (lower x) = None)
           (casing_words phrase)))
   \<and> (cache self word = Some cached \<longrightarrow>
        fst (replace_word word (self, g)) \<noteq> Inl IndexError
        \<and> (word \<notin> no_replace self \<longrightarrow> replace_word word (self, g) = (Inr cached, self, g)))"
  using replace_word_IndexError_iff [of word self g]
    replace_single_IndexError_iff [of x self g]
    replace_combined_IndexError_iff [of phrase self g]
  by simp

theorem empty_pool_error_iff_witness:
  "cache seeded_empty ''version'' = Some ''plane'' \<and> replacements seeded_empty = []
   \<and> ''version'' \<notin> no_replace seeded_empty
   \<and> replace_word ''version'' (seeded_empty, \<lambda>_. 0) = (Inr ''plane'', seeded_empty, \<lambda>_. 0)"
proof -
  have seeded: "cache seeded_empty ''version'' = Some ''plane''"
    and pool: "replacements seeded_empty = []"
    and free: "''version'' \<notin> no_replace seeded_empty"
    by (simp_all add: nominator_eval)
  with empty_pool_error_iff [of "''version''" seeded_empty "\<lambda>_. 0" "''VERSION''" "''VERSION_3''" "''plane''"]
  show ?thesis by blast
qed

subsection \<open>Exempt words\<close>

text \<open>
  C6. A word whose lowercase form is in the exemption set, spelled in any of the three
  casings, is returned as it is by \<^verbatim>\<open>replace_single\<close>, and the object is left as it
  was: no cache entry is made. For a lowercase word \<open>w\<close> of the exemption set these
  spellings are \<open>w\<close>, \<open>upper w\<close> and \<open>title w\<close>.
\<close>

theorem exempt_words_unchanged:
  "(lower x \<in> no_replace self \<longrightarrow> islower x \<or> isupper x \<or> istitle x \<longrightarrow>
      replace_single x (self, g) = (Inr x, self, g))
   \<and> (w \<in> no_replace self \<longrightarrow> islower w \<longrightarrow>
      replace_single w (self, g) = (Inr w, self, g)
      \<and> replace_single (upper w) (self, g) = (Inr (upper w), self, g)
      \<and> replace_single (title w) (self, g) = (Inr (title w), self, g))"
  using replace_single_exempt [of x self g] replace_single_exempt [of w self g]
    replace_single_exempt [of "upper w" self g] replace_single_exempt [of "title w" self g]
  by (simp add: islower_lower islower_upper islower_title)

theorem exempt_words_unchanged_witness:
  "replace_single ''id'' (chicken, \<lambda>_. 0) = (Inr ''id'', chicken, \<lambda>_. 0)
   \<and> replace_single ''ID'' (chicken, \<lambda>_. 0) = (Inr ''ID'', chicken, \<lambda>_. 0)
   \<and> replace_single ''Id'' (chicken, \<lambda>_. 0) = (Inr ''Id'', chicken, \<lambda>_. 0)
   \<and> cache chicken ''id'' = None"
proof -
  have exempt: "''id'' \<in> no_replace chicken" and low: "islower ''id''"
    and spelling: "upper ''id'' = ''ID''" "title ''id'' = ''Id''"
    and fresh: "cache chicken ''id'' = None"
    by (simp_all add: char_eval str_eval nominator_eval)
  from exempt low exempt_words_unchanged [of "''id''" chicken "\<lambda>_. 0" "''id''"]
  have "replace_single ''id'' (chicken, \<lambda>_. 0) = (Inr ''id'', chicken, \<lambda>_. 0)
      \<and> replace_single (upper ''id'') (chicken, \<lambda>_. 0) = (Inr (upper ''id''), chicken, \<lambda>_. 0)
      \<and> replace_single (title ''id'') (chicken, \<lambda>_. 0) = (Inr (title ''id''), chicken, \<lambda>_. 0)"
    by blast
  with fresh show ?thesis by (simp only: spelling simp_thms)
qed

subsection \<open>The casing of the word carries over\<close>

text \<open>
  C7. On a \<^verbatim>\<open>Nominator\<close> whose cache maps \<^verbatim>\<open>foo\<close> to \<^verbatim>\<open>egg\<close>, and which does not
  exempt \<^verbatim>\<open>foo\<close>, \<^verbatim>\<open>replace_single\<close> returns \<^verbatim>\<open>egg\<close> for \<^verbatim>\<open>foo\<close>, \<^verbatim>\<open>EGG\<close> for
  \<^verbatim>\<open>FOO\<close> and \<^verbatim>\<open>Egg\<close> for \<^verbatim>\<open>Foo\<close>, and changes nothing.
\<close>

theorem case_round_trip:
  "cache self ''foo'' = Some ''egg'' \<Longrightarrow> ''foo'' \<notin> no_replace self
     \<Longrightarrow> replace_single ''foo'' (self, g) = (Inr ''egg'', self, g)
       \<and> replace_single ''FOO'' (self, g) = (Inr ''EGG'', self, g)
       \<and> replace_single ''Foo'' (self, g) = (Inr ''Egg'', self, g)"
  by (simp add: replace_single_def char_eval str_eval)

theorem case_round_trip_witness:
  "replace_single ''foo'' (spam, \<lambda>_. 0) = (Inr ''egg'', spam, \<lambda>_. 0)
   \<and> replace_single ''FOO'' (spam, \<lambda>_. 0) = (Inr ''EGG'', spam, \<lambda>_. 0)
   \<and> replace_single ''Foo'' (spam, \<lambda>_. 0) = (Inr ''Egg'', spam, \<lambda>_. 0)"
proof -
  have "cache spam ''foo'' = Some ''egg''" and "''foo'' \<notin> no_replace spam"
    by (simp_all add: spam_def Nominator_def read_words_def)
  then show ?thesis by (rule case_round_trip)
qed

subsection \<open>Splitting by case\<close>

text \<open>
  C8. The case splitter cuts \<^verbatim>\<open>simpleHTTPRequestMethod\<close> into \<^verbatim>\<open>simple\<close>,
  \<^verbatim>\<open>HTTP\<close>, \<^verbatim>\<open>Request\<close>, \<^verbatim>\<open>Method\<close>, in this order, and the \<^verbatim>\<open>chicken\<close>
  fixture turns the name into \<^verbatim>\<open>chickenCHICKENChickenChicken\<close>, whatever the random
  number generator draws. The rule behind it: a run of two or more uppercase letters
  that a lowercase letter follows is matched without its last letter.
\<close>

theorem split_simpleHTTPRequestMethod:
  "split_replace_by_case ''simpleHTTPRequestMethod'' = [''simple'', ''HTTP'', ''Request'', ''Method'']
   \<and> fst (replace_combined ''simpleHTTPRequestMethod'' (chicken, g))
       = Inr ''chickenCHICKENChickenChicken''
   \<and> (list_all char_isupper us \<longrightarrow> 2 \<le> length us \<longrightarrow> char_islower l \<longrightarrow>
        match_split_case at_start (us @ l # rest) = Some (length us - 1))"
proof (intro conjI impI)
  show "split_replace_by_case ''simpleHTTPRequestMethod''
      = [''simple'', ''HTTP'', ''Request'', ''Method'']"
    by (simp add: char_eval str_eval pattern_eval)
  show "fst (replace_combined ''simpleHTTPRequestMethod'' (chicken, g))
      = Inr ''chickenCHICKENChickenChicken''"
    by (simp add: char_eval str_eval pattern_eval nominator_eval)
  show "match_split_case at_start (us @ l # rest) = Some (length us - 1)"
    if "list_all char_isupper us" "2 \<le> length us" "char_islower l"
    using that by (rule acronym_gives_back_one)
qed

theorem split_simpleHTTPRequestMethod_witness:
  "match_split_case False (''HTTPR'' @ CHR ''e'' # ''questMethod'') = Some 4"
proof -
  have "list_all char_isupper ''HTTPR''" and "2 \<le> length ''HTTPR''" and "char_islower CHR ''e''"
    by (simp_all add: char_eval)
  with split_simpleHTTPRequestMethod [of "\<lambda>_. 0" "''HTTPR''" "CHR ''e''" False "''questMethod''"]
  have "match_split_case False (''HTTPR'' @ CHR ''e'' # ''questMethod'') = Some (length ''HTTPR'' - 1)"
    by blast
  then show ?thesis by simp
qed

subsection \<open>Underscores\<close>

text \<open>
  C9. \<^verbatim>\<open>replace_combined\<close> cuts its text at the underscores only and copies every
  underscore: the result for two texts with a run of one or more underscores between
  them is the result for the first, the same run, and the result for the second. With
  \<^verbatim>\<open>x\<close> cached as \<^verbatim>\<open>chicken\<close>, \<^verbatim>\<open>x__x\<close> becomes \<^verbatim>\<open>chicken__chicken\<close>.
\<close>

theorem underscores_preserved:
  "(replace_combined a w = (Inr ra, w') \<longrightarrow> replace_combined b w' = (Inr rb, w'') \<longrightarrow>
      replace_combined (a @ replicate (Suc n) CHR ''_'' @ b) w
        = (Inr (ra @ replicate (Suc n) CHR ''_'' @ rb), w''))
   \<and> (cache self ''x'' = Some ''chicken'' \<longrightarrow> ''x'' \<notin> no_replace self \<longrightarrow>
      replace_combined ''x__x'' (self, g) = (Inr ''chicken__chicken'', self, g))"
proof (intro conjI impI)
  assume a: "replace_combined a w = (Inr ra, w')" and b: "replace_combined b w' = (Inr rb, w'')"
  have "spans_underscore (a @ replicate (Suc n) CHR ''_'' @ b) =
      spans_underscore a @ replicate (Suc n) (False, ''_'') @ spans_underscore b"
    using spans_underscore_append [of a "replicate n CHR ''_'' @ b"]
    by (simp add: spans_underscore_run)
  moreover from b
  have "re_sub process_cased_words (replicate (Suc n) (False, ''_'') @ spans_underscore b) w'
      = (Inr (replicate (Suc n) CHR ''_'' @ rb), w'')"
    unfolding re_sub_copied replace_combined_def
    by (simp only: concat_replicate_underscore prod.case sum.case)
  ultimately show "replace_combined (a @ replicate (Suc n) CHR ''_'' @ b) w
        = (Inr (ra @ replicate (Suc n) CHR ''_'' @ rb), w'')"
    using a unfolding replace_combined_def
    by (simp only: re_sub_append prod.case sum.case)
next
  assume "cache self ''x'' = Some ''chicken''" "''x'' \<notin> no_replace self"
  then show "replace_combined ''x__x'' (self, g) = (Inr ''chicken__chicken'', self, g)"
    by (simp add: char_eval str_eval pattern_eval replace_single_def process_cased_words_def
        replace_combined_def)
qed

theorem underscores_preserved_witness:
  "replace_combined ''x__x'' (chicken\<lparr>cache := [''x'' \<mapsto> ''chicken'']\<rparr>, \<lambda>_. 0)
     = (Inr ''chicken__chicken'', chicken\<lparr>cache := [''x'' \<mapsto> ''chicken'']\<rparr>, \<lambda>_. 0)"
proof -
  let ?self = "chicken\<lparr>cache := [''x'' \<mapsto> ''chicken'']\<rparr>"
  have "cache ?self ''x'' = Some ''chicken''" and "''x'' \<notin> no_replace ?self"
    by (simp_all add: char_eval str_eval nominator_eval)
  with underscores_preserved [of "''x''" "(?self, \<lambda>_. 0)" "''chicken''" "(?self, \<lambda>_. 0)" "''x''"
      "''chicken''" "(?self, \<lambda>_. 0)" 1 ?self "\<lambda>_. 0"]
  show ?thesis by blast
qed

subsection \<open>A failed call\<close>

text \<open>
  C10. When \<^verbatim>\<open>_replace\<close> raises the \<^verbatim>\<open>IndexError\<close> of the empty candidate list, the
  object is as it was before the call: \<^verbatim>\<open>random.choice\<close> raises before the cache is
  written. So, once the list is filled again, \<^verbatim>\<open>_replace\<close> does on the object what it
  does on one that never saw the failed call.
\<close>

theorem failed_replace_leaves_state:
  "fst (replace_word word (self, g)) = Inl IndexError \<Longrightarrow>
     fst (snd (replace_word word (self, g))) = self
     \<and> replace_word word (fst (snd (replace_word word (self, g)))\<lparr>replacements := pool\<rparr>, g')
       = replace_word word (self\<lparr>replacements := pool\<rparr>, g')"
  by (cases word self rule: replace_word_cases)
    (simp_all add: replace_word_exempt replace_word_cached replace_word_fresh
      replace_word_empty_pool del: replace_word.simps)

theorem failed_replace_leaves_state_witness:
  "fst (replace_word ''anykey'' (empty_fixture, \<lambda>_. 0)) = Inl IndexError
   \<and> fst (snd (replace_word ''anykey'' (empty_fixture, \<lambda>_. 0))) = empty_fixture"
proof -
  have failed: "fst (replace_word ''anykey'' (empty_fixture, \<lambda>_. 0)) = Inl IndexError"
    by (simp add: nominator_eval)
  from failed_replace_leaves_state [OF failed, of "[]" "\<lambda>_. 0"] failed
  show ?thesis by blast
qed

end
